theory Spec2Isabelle
  imports Main "HOL-Library.AList"
begin

section \<open>The buffered writer of handler.py\<close>

text \<open>
  The class \<open>DataWriter\<close> of \<open>src/handler.py\<close> accumulates records column by column in
  the dictionary \<open>self._buffer\<close> and hands the whole dictionary to
  \<open>self._handler.write\<close> once the first column has reached \<open>self._buf_capacity\<close>.

  A Python \<open>dict\<close> keeps its keys in insertion order and \<open>_buf_size\<close> reads the first
  key, so a dictionary is an association list here; a list that stands for a
  dictionary has distinct keys. Values of the records are left polymorphic.
\<close>

subsection \<open>Data\<close>

type_synonym 'v data = "(string \<times> 'v) list"

type_synonym 'v columns = "(string \<times> 'v list) list"

datatype error = NotImplementedError string | HandlerError string

text \<open>
  A method either returns or raises. In both cases the object is left in some state:
  a raise keeps whatever the statements before it have done to \<open>self\<close>.
\<close>

datatype 'a outcome = Returned (state_of: 'a) | Raised error (state_of: 'a)

text \<open>
  The handler is an external collaborator (a database or a document store). All the
  writer sees of it is one call, \<open>write(data, table)\<close>, that returns or raises. The
  handler is modelled by the list of the calls it has received, in order; whether a
  call raises is decided by a parameter \<open>fails\<close> of the calls before it and of the
  arguments. The handler does not modify the dictionary it is given.
\<close>

record 'v Handler =
  received :: "('v columns \<times> string) list"

type_synonym 'v sink =
  "('v columns \<times> string) list \<Rightarrow> 'v columns \<Rightarrow> string \<Rightarrow> error option"

definition Handler_write ::
  "'v sink \<Rightarrow> 'v Handler \<Rightarrow> 'v columns \<Rightarrow> string \<Rightarrow> 'v Handler \<times> error option" where
  "Handler_write fails h d t =
     (h\<lparr>received := received h @ [(d, t)]\<rparr>, fails (received h) d t)"

text \<open>
  \<open>_reset_buffer\<close> raises in the base class and is meant to be overridden. The class
  of a writer is therefore part of its state: the base class itself, or a subclass
  given by the list of keys its override initialises.
\<close>

datatype writer_class = BaseDataWriter | Subclass "string list"

record 'v DataWriter =
  handler :: "'v Handler"
  buf_capacity :: int
  table :: string
  buffer :: "'v columns"
  cls :: writer_class

subsection \<open>Operations\<close>

text \<open>
  Modelled from the spec: the override of \<open>_reset_buffer\<close> in a subclass, which is not
  in the source. The spec's \<open>initialize(fields)\<close> "resets the Buffer to an empty
  sequence for each recognized field name"; the keys are inserted in the order of the
  list, a repeated key keeping its first position as in a Python \<open>dict\<close>.
\<close>

definition fresh_buffer :: "string list \<Rightarrow> 'v columns" where
  "fresh_buffer ks = fold (\<lambda>k d. AList.update k [] d) ks []"

text \<open>
  \<open>_reset_buffer\<close>: the base class raises \<open>NotImplementedError\<close>; a subclass sets the
  buffer to the empty columns of its keys and returns.
\<close>

definition reset_buffer :: "'v DataWriter \<Rightarrow> 'v DataWriter outcome" where
  "reset_buffer w =
     (case cls w of
        BaseDataWriter \<Rightarrow> Raised (NotImplementedError ''Buffer resetter not implemented.'') w
      | Subclass ks \<Rightarrow> Returned (w\<lparr>buffer := fresh_buffer ks\<rparr>))"

text \<open>
  \<open>__init__\<close> stores its arguments, sets \<open>self._buffer = {}\<close> and calls
  \<open>self._reset_buffer()\<close>. When that raises, the caller gets the exception and no
  instance.
\<close>

definition DataWriter_init ::
  "writer_class \<Rightarrow> 'v Handler \<Rightarrow> string \<Rightarrow> int \<Rightarrow> error + 'v DataWriter" where
  "DataWriter_init c h t capacity =
     (case reset_buffer \<lparr>handler = h, buf_capacity = capacity, table = t,
                          buffer = [], cls = c\<rparr> of
        Raised e _ \<Rightarrow> Inl e
      | Returned w \<Rightarrow> Inr w)"

text \<open>
  \<open>_append_buffer\<close>: the loop over \<open>data.keys()\<close>. \<open>self._buffer[key].append(data[key])\<close>
  extends the column stored under \<open>key\<close>.
\<close>

fun append_loop :: "'v columns \<Rightarrow> 'v data \<Rightarrow> 'v columns" where
  "append_loop buf [] = buf"
| "append_loop buf ((key, v) # rest) =
     append_loop
       (if key \<in> set (map fst buf)
        then AList.map_entry key (\<lambda>col. col @ [v]) buf
        else buf)
       rest"

definition append_buffer :: "'v DataWriter \<Rightarrow> 'v data \<Rightarrow> 'v DataWriter" where
  "append_buffer w d = w\<lparr>buffer := append_loop (buffer w) d\<rparr>"

text \<open>
  \<open>_buf_size\<close>: the length of the column under the first key, 0 for a dictionary
  without keys.
\<close>

definition buf_size :: "'v DataWriter \<Rightarrow> int" where
  "buf_size w =
     (case buffer w of
        [] \<Rightarrow> 0
      | (key, col) # _ \<Rightarrow> int (length col))"

definition flush :: "'v sink \<Rightarrow> 'v DataWriter \<Rightarrow> 'v DataWriter outcome" where
  "flush fails w =
     (if buf_size w > 0 then
        (case Handler_write fails (handler w) (buffer w) (table w) of
           (h, Some e) \<Rightarrow> Raised e (w\<lparr>handler := h\<rparr>)
         | (h, None) \<Rightarrow> reset_buffer (w\<lparr>handler := h\<rparr>))
      else Returned w)"

text \<open>
  The method \<open>write\<close>. Its name is taken by an Isabelle command, so the constant is
  \<open>write_data\<close>.
\<close>

definition write_data :: "'v sink \<Rightarrow> 'v DataWriter \<Rightarrow> 'v data \<Rightarrow> 'v DataWriter outcome" where
  "write_data fails w d =
     (let w' = append_buffer w d
      in if buf_size w' \<ge> buf_capacity w' then flush fails w' else Returned w')"

text \<open>A caller's loop \<open>for d in ds: writer.write(d)\<close>; the first raise ends it.\<close>

fun write_all :: "'v sink \<Rightarrow> 'v DataWriter \<Rightarrow> 'v data list \<Rightarrow> 'v DataWriter outcome" where
  "write_all fails w [] = Returned w"
| "write_all fails w (d # ds) =
     (case write_data fails w d of
        Returned w' \<Rightarrow> write_all fails w' ds
      | Raised e w' \<Rightarrow> Raised e w')"

subsection \<open>Vocabulary of the properties\<close>

text \<open>
  A record is fully populated for the keys \<open>ks\<close> when it is a dictionary (its keys
  are distinct) that has every key of \<open>ks\<close>.
\<close>

definition fully_populated :: "string list \<Rightarrow> 'v data \<Rightarrow> bool" where
  "fully_populated ks d = (distinct (map fst d) \<and> set ks \<subseteq> set (map fst d))"

text \<open>What a record holds for one column: its value under the key, if it has the key.\<close>

definition cells :: "'v data \<Rightarrow> string \<Rightarrow> 'v list" where
  "cells d k = (case map_of d k of None \<Rightarrow> [] | Some v \<Rightarrow> [v])"

text \<open>
  The columns \<open>b\<close> after the records \<open>ds\<close> have been accumulated: every column has
  grown by the values the records hold for it, in the order of the records.
\<close>

definition columns_of :: "'v columns \<Rightarrow> 'v data list \<Rightarrow> 'v columns" where
  "columns_of b ds = map (\<lambda>(k, c). (k, c @ concat (map (\<lambda>d. cells d k) ds))) b"

text \<open>The handler after one more call of its \<open>write\<close>.\<close>

definition called :: "'v Handler \<Rightarrow> 'v columns \<Rightarrow> string \<Rightarrow> 'v Handler" where
  "called h d t = h\<lparr>received := received h @ [(d, t)]\<rparr>"

text \<open>All columns of a buffer have the length of the first one.\<close>

definition equal_lengths :: "'v columns \<Rightarrow> bool" where
  "equal_lengths b =
     (case b of
        [] \<Rightarrow> True
      | (_, c) # rest \<Rightarrow> list_all (\<lambda>p. length (snd p) = length c) rest)"

text \<open>
  The shape a writer of the subclass with the keys \<open>ks\<close> keeps: its buffer is a
  dictionary with exactly these keys and columns of one length.
\<close>

definition well_shaped :: "string list \<Rightarrow> 'v DataWriter \<Rightarrow> bool" where
  "well_shaped ks w =
     (cls w = Subclass ks \<and> distinct (map fst (buffer w)) \<and>
      set (map fst (buffer w)) = set ks \<and> equal_lengths (buffer w))"

text \<open>
  The operations of the writer, and a caller that performs a list of them, going on
  after an exception with the object as the raise has left it.
\<close>

datatype 'v operation = Write "'v data" | Append "'v data" | Flush | Initialize

fun perform :: "'v sink \<Rightarrow> 'v DataWriter \<Rightarrow> 'v operation \<Rightarrow> 'v DataWriter outcome" where
  "perform fails w (Write d) = write_data fails w d"
| "perform fails w (Append d) = Returned (append_buffer w d)"
| "perform fails w Flush = flush fails w"
| "perform fails w Initialize = reset_buffer w"

fun run_ops :: "'v sink \<Rightarrow> 'v DataWriter \<Rightarrow> 'v operation list \<Rightarrow> 'v DataWriter" where
  "run_ops fails w [] = w"
| "run_ops fails w (x # xs) = run_ops fails (state_of (perform fails w x)) xs"

fun populated_op :: "string list \<Rightarrow> 'v operation \<Rightarrow> bool" where
  "populated_op ks (Write d) = fully_populated ks d"
| "populated_op ks (Append d) = fully_populated ks d"
| "populated_op ks Flush = True"
| "populated_op ks Initialize = True"

text \<open>The keys a writer's class resets the buffer to; the base class has none.\<close>

fun class_keys :: "writer_class \<Rightarrow> string list" where
  "class_keys BaseDataWriter = []"
| "class_keys (Subclass ks) = ks"

subsection \<open>The example of the specification\<close>

text \<open>
  Section 8 of the specification runs a writer with capacity 3 and the fields \<open>t\<close> and
  \<open>v\<close>. The definitions below give that writer for any list of keys and any capacity,
  its records, a handler that accepts every call and one that raises on every call.
\<close>

definition new_writer :: "string list \<Rightarrow> int \<Rightarrow> int DataWriter" where
  "new_writer ks capacity =
     \<lparr>handler = \<lparr>received = []\<rparr>, buf_capacity = capacity, table = ''readings'',
      buffer = fresh_buffer ks, cls = Subclass ks\<rparr>"

definition reading :: "int \<Rightarrow> int \<Rightarrow> int data" where
  "reading t v = [(''t'', t), (''v'', v)]"

definition sink_ok :: "int sink" where
  "sink_ok = (\<lambda>_ _ _. None)"

definition sink_down :: "int sink" where
  "sink_down = (\<lambda>_ _ _. Some (HandlerError ''down''))"

section \<open>Auxiliary facts\<close>

subsection \<open>The empty buffer of a subclass\<close>

lemma fold_update_keys_distinct:
  "distinct (map fst d) \<Longrightarrow> distinct (map fst (fold (\<lambda>k d. AList.update k [] d) ks d))"
  by (induction ks arbitrary: d) (simp_all add: distinct_update)

lemma fold_update_keys_set:
  "set (map fst (fold (\<lambda>k d. AList.update k [] d) ks d)) = set (map fst d) \<union> set ks"
  by (induction ks arbitrary: d) (auto simp: dom_update)

lemma update_empty_cols:
  "\<forall>p \<in> set d. snd p = [] \<Longrightarrow> \<forall>p \<in> set (AList.update k [] d). snd p = []"
  by (induction d) auto

lemma fold_update_empty_cols:
  "\<forall>p \<in> set d. snd p = [] \<Longrightarrow> \<forall>p \<in> set (fold (\<lambda>k d. AList.update k [] d) ks d). snd p = []"
proof (induction ks arbitrary: d)
  case Nil
  then show ?case by simp
next
  case (Cons k ks)
  have "\<forall>p \<in> set (AList.update k [] d). snd p = []"
    using Cons.prems by (rule update_empty_cols)
  then show ?case using Cons.IH by simp
qed

lemma fresh_buffer_distinct: "distinct (map fst (fresh_buffer ks))"
  by (simp add: fresh_buffer_def fold_update_keys_distinct)

lemma fresh_buffer_keys: "set (map fst (fresh_buffer ks)) = set ks"
  using fold_update_keys_set [of ks "[]"] by (simp add: fresh_buffer_def)

lemma fresh_buffer_cols: "p \<in> set (fresh_buffer ks) \<Longrightarrow> snd p = []"
  using fold_update_empty_cols [of "[]" ks] by (auto simp: fresh_buffer_def)

lemma fresh_buffer_Nil: "fresh_buffer ks = [] \<longleftrightarrow> ks = []"
  using fresh_buffer_keys [of ks] by (metis list.map_disc_iff set_empty)

text \<open>For a list of distinct keys the empty buffer is one empty column per key, in order.\<close>

lemma update_new_key: "k \<notin> fst ` set d \<Longrightarrow> AList.update k v d = d @ [(k, v)]"
  by (induction d) auto

lemma fold_update_distinct:
  "distinct ks \<Longrightarrow> set ks \<inter> fst ` set d = {} \<Longrightarrow>
   fold (\<lambda>k d. AList.update k [] d) ks d = d @ map (\<lambda>k. (k, [])) ks"
proof (induction ks arbitrary: d)
  case Nil
  then show ?case by simp
next
  case (Cons k ks)
  have "AList.update k [] d = d @ [(k, [])]"
    using Cons.prems(2) by (simp add: update_new_key)
  moreover have "set ks \<inter> fst ` set (d @ [(k, [])]) = {}"
    using Cons.prems by auto
  ultimately show ?case
    using Cons.IH [of "d @ [(k, [])]"] Cons.prems(1) by simp
qed

lemma fresh_buffer_distinct_keys:
  "distinct ks \<Longrightarrow> fresh_buffer ks = map (\<lambda>k. (k, [])) ks"
  using fold_update_distinct [of ks "[]"] by (simp add: fresh_buffer_def)

subsection \<open>Appending one record\<close>

lemma map_other_keys:
  "k \<notin> fst ` set b \<Longrightarrow> map (\<lambda>(k', c). (k', if k' = k then f c else c)) b = b"
  by (induction b) auto

lemma map_entry_distinct:
  "distinct (map fst b) \<Longrightarrow>
   AList.map_entry k f b = map (\<lambda>(k', c). (k', if k' = k then f c else c)) b"
  by (induction b) (auto simp: map_other_keys)

lemma map_entry_keys: "map fst (AList.map_entry k f b) = map fst b"
  by (induction b) auto

lemma append_loop_keys: "map fst (append_loop b d) = map fst b"
  by (induction b d rule: append_loop.induct) (simp_all add: map_entry_keys)

lemma append_loop_cells:
  "distinct (map fst b) \<Longrightarrow> distinct (map fst d) \<Longrightarrow>
   append_loop b d = map (\<lambda>(k, c). (k, c @ cells d k)) b"
proof (induction b d rule: append_loop.induct)
  case (1 buf)
  then show ?case by (simp add: cells_def)
next
  case (2 buf key v rest)
  have nk: "map_of rest key = None"
    using "2.prems"(2) by (simp add: map_of_eq_None_iff image_iff)
  show ?case
  proof (cases "key \<in> set (map fst buf)")
    case True
    have "append_loop buf ((key, v) # rest) =
          map (\<lambda>(k, c). (k, c @ cells rest k)) (AList.map_entry key (\<lambda>col. col @ [v]) buf)"
      using True "2.IH" "2.prems" by (simp add: map_entry_keys)
    also have "\<dots> = map (\<lambda>(k, c). (k, c @ cells ((key, v) # rest) k)) buf"
      using "2.prems"(1) nk by (simp add: map_entry_distinct cells_def split_def)
    finally show ?thesis .
  next
    case False
    have "append_loop buf ((key, v) # rest) = map (\<lambda>(k, c). (k, c @ cells rest k)) buf"
      using False "2.IH" "2.prems" by simp
    also have "\<dots> = map (\<lambda>(k, c). (k, c @ cells ((key, v) # rest) k)) buf"
    proof (rule map_cong [OF refl])
      fix p assume "p \<in> set buf"
      then have "fst p \<noteq> key" using False by auto
      then show "(case p of (k, c) \<Rightarrow> (k, c @ cells rest k)) =
                 (case p of (k, c) \<Rightarrow> (k, c @ cells ((key, v) # rest) k))"
        by (cases p) (simp add: cells_def)
    qed
    finally show ?thesis .
  qed
qed

subsection \<open>Flushing\<close>

lemma buf_size_handler [simp]: "buf_size (w\<lparr>handler := h\<rparr>) = buf_size w"
  by (simp add: buf_size_def)

lemma flush_raises:
  "0 < buf_size w \<Longrightarrow> fails (received (handler w)) (buffer w) (table w) = Some e \<Longrightarrow>
   flush fails w = Raised e (w\<lparr>handler := called (handler w) (buffer w) (table w)\<rparr>)"
  by (simp add: flush_def Handler_write_def called_def)

lemma flush_returns:
  "0 < buf_size w \<Longrightarrow> fails (received (handler w)) (buffer w) (table w) = None \<Longrightarrow>
   flush fails w = reset_buffer (w\<lparr>handler := called (handler w) (buffer w) (table w)\<rparr>)"
  by (simp add: flush_def Handler_write_def called_def)

lemma fresh_buffer_t_v: "fresh_buffer [''t'', ''v''] = [(''t'', []), (''v'', [])]"
  by (simp add: fresh_buffer_def)

subsection \<open>One call of write\<close>

lemma append_loop_dom: "fst ` set (append_loop b d) = fst ` set b"
  using append_loop_keys [of b d] by (metis set_map)

lemma fresh_buffer_dom: "fst ` set (fresh_buffer ks) = set ks"
  using fresh_buffer_keys [of ks] by simp

lemma append_loop_append:
  "append_loop b (xs @ ys) = append_loop (append_loop b xs) ys"
  by (induction b xs rule: append_loop.induct) simp_all

lemma append_loop_skip:
  assumes "key \<notin> set (map fst b)"
  shows "append_loop b (xs @ (key, v) # ys) = append_loop b (xs @ ys)"
proof -
  have "key \<notin> set (map fst (append_loop b xs))"
    using assms by (simp add: append_loop_dom)
  then show ?thesis
    by (simp add: append_loop_append)
qed

lemma buf_size_fresh [simp]: "buf_size (w\<lparr>buffer := fresh_buffer ks\<rparr>) = 0"
proof (cases "fresh_buffer ks :: 'a columns")
  case Nil
  then show ?thesis by (simp add: buf_size_def)
next
  case (Cons p ps)
  then have "snd p = []"
    using fresh_buffer_cols [of p ks] by simp
  then show ?thesis using Cons by (cases p) (simp add: buf_size_def)
qed

lemma write_data_keys:
  "map fst (buffer (state_of (write_data fails w d))) = map fst (buffer w) \<or>
   set (map fst (buffer (state_of (write_data fails w d)))) = set (class_keys (cls w))"
proof -
  have k: "map fst (buffer (append_buffer w d)) = map fst (buffer w)"
    by (simp add: append_buffer_def append_loop_keys)
  show ?thesis
  proof (cases "cls w")
    case BaseDataWriter
    then show ?thesis
      using k by (simp add: write_data_def flush_def reset_buffer_def Handler_write_def
          append_buffer_def Let_def split: option.splits)
  next
    case (Subclass ks)
    then show ?thesis
      using k
      by (simp add: fresh_buffer_dom write_data_def flush_def reset_buffer_def Handler_write_def
          append_buffer_def Let_def split: option.splits)
  qed
qed

lemma append_loop_first:
  "\<exists>c' rest'. append_loop ((k0, c0) # rest) d = (k0, c') # rest' \<and> length c0 \<le> length c' \<and>
     (k0 \<in> fst ` set d \<longrightarrow> length c0 < length c')"
proof (induction d arbitrary: c0 rest)
  case Nil
  then show ?case by simp
next
  case (Cons p d)
  obtain key v where p: "p = (key, v)" by (cases p)
  show ?case
  proof (cases "key = k0")
    case True
    obtain c' rest' where "append_loop ((k0, c0 @ [v]) # rest) d = (k0, c') # rest'"
      and "length (c0 @ [v]) \<le> length c'"
      using Cons.IH [of "c0 @ [v]" rest] by blast
    then show ?thesis using True p by simp
  next
    case False
    let ?rest = "if key \<in> set (map fst rest) then AList.map_entry key (\<lambda>col. col @ [v]) rest else rest"
    have s: "append_loop ((k0, c0) # rest) (p # d) = append_loop ((k0, c0) # ?rest) d"
      using False p by simp
    show ?thesis
      unfolding s using Cons.IH [of c0 ?rest] False p by auto
  qed
qed

lemma buf_size_first_key:
  assumes "buffer w = (k0, c0) # rest" and "k0 \<in> set (map fst d)"
  shows "0 < buf_size (append_buffer w d)"
proof -
  obtain c' rest' where "append_loop ((k0, c0) # rest) d = (k0, c') # rest'"
    and "length c0 < length c'"
    using append_loop_first [of k0 c0 rest d] assms(2) by auto
  then show ?thesis
    using assms(1) by (auto simp: buf_size_def append_buffer_def)
qed

subsection \<open>The shape of the buffer\<close>

lemma equal_lengths_iff:
  "equal_lengths b \<longleftrightarrow> (\<exists>n. \<forall>p \<in> set b. length (snd p) = n)"
proof (cases b)
  case Nil
  then show ?thesis by (simp add: equal_lengths_def)
next
  case (Cons p ps)
  then show ?thesis
    by (cases p) (auto simp: equal_lengths_def list_all_iff)
qed

lemma equal_lengths_fresh: "equal_lengths (fresh_buffer ks)"
  unfolding equal_lengths_iff using fresh_buffer_cols [of _ ks] by (intro exI [of _ 0]) auto

lemma cells_present: "k \<in> fst ` set d \<Longrightarrow> length (cells d k) = 1"
proof -
  assume "k \<in> fst ` set d"
  then obtain v where "map_of d k = Some v"
    by (metis domD dom_map_of_conv_image_fst)
  then show ?thesis by (simp add: cells_def)
qed

lemma well_shaped_init:
  "DataWriter_init (Subclass ks) h t capacity = Inr w \<Longrightarrow> well_shaped ks w"
proof -
  assume "DataWriter_init (Subclass ks) h t capacity = Inr w"
  then have "cls w = Subclass ks" and "buffer w = fresh_buffer ks"
    by (auto simp: DataWriter_init_def reset_buffer_def)
  then show ?thesis
    by (simp add: well_shaped_def fresh_buffer_distinct fresh_buffer_dom equal_lengths_fresh)
qed

lemma well_shaped_reset:
  "well_shaped ks w \<Longrightarrow> well_shaped ks (state_of (reset_buffer w))"
  by (simp add: reset_buffer_def well_shaped_def fresh_buffer_distinct
      fresh_buffer_dom equal_lengths_fresh)

lemma well_shaped_handler:
  "well_shaped ks (w\<lparr>handler := h\<rparr>) = well_shaped ks w"
  by (simp add: well_shaped_def)

lemma well_shaped_append:
  assumes "well_shaped ks w" and "fully_populated ks d"
  shows "well_shaped ks (append_buffer w d)"
proof -
  let ?b = "buffer w"
  have dist: "distinct (map fst ?b)" and keys: "set (map fst ?b) = set ks"
    and eq: "equal_lengths ?b"
    using assms(1) by (simp_all add: well_shaped_def)
  have dd: "distinct (map fst d)" and sub: "set ks \<subseteq> fst ` set d"
    using assms(2) by (simp_all add: fully_populated_def)
  have b': "append_loop ?b d = map (\<lambda>(k, c). (k, c @ cells d k)) ?b"
    using dist dd by (rule append_loop_cells)
  obtain n where n: "\<forall>p \<in> set ?b. length (snd p) = n"
    using eq unfolding equal_lengths_iff by blast
  have "\<forall>p \<in> set (append_loop ?b d). length (snd p) = Suc n"
  proof
    fix p assume "p \<in> set (append_loop ?b d)"
    then obtain k c where kc: "(k, c) \<in> set ?b" and p: "p = (k, c @ cells d k)"
      unfolding b' by auto
    have "k \<in> fst ` set d"
      using kc keys sub by force
    then have "length (cells d k) = 1" by (rule cells_present)
    then show "length (snd p) = Suc n"
      using n kc p by auto
  qed
  then have "equal_lengths (append_loop ?b d)"
    unfolding equal_lengths_iff by blast
  then show ?thesis
    using assms(1) by (simp add: well_shaped_def append_buffer_def append_loop_keys)
qed

lemma well_shaped_flush:
  "well_shaped ks w \<Longrightarrow> well_shaped ks (state_of (flush fails w))"
  by (simp add: flush_def Handler_write_def well_shaped_reset well_shaped_handler
      split: option.splits)

lemma well_shaped_write:
  "well_shaped ks w \<Longrightarrow> fully_populated ks d \<Longrightarrow>
   well_shaped ks (state_of (write_data fails w d))"
  by (simp add: write_data_def Let_def well_shaped_flush well_shaped_append)

lemma well_shaped_perform:
  "well_shaped ks w \<Longrightarrow> populated_op ks x \<Longrightarrow> well_shaped ks (state_of (perform fails w x))"
  by (cases x) (simp_all add: well_shaped_write well_shaped_append well_shaped_flush
      well_shaped_reset)

lemma well_shaped_run_ops:
  "well_shaped ks w \<Longrightarrow> list_all (populated_op ks) xs \<Longrightarrow> well_shaped ks (run_ops fails w xs)"
  by (induction xs arbitrary: w) (simp_all add: well_shaped_perform)

lemma equal_lengths_pairwise:
  "equal_lengths b \<Longrightarrow> \<forall>p \<in> set b. \<forall>q \<in> set b. length (snd p) = length (snd q)"
  unfolding equal_lengths_iff by metis

subsection \<open>Sequences of calls of write\<close>

lemma columns_of_Nil [simp]: "columns_of b [] = b"
  by (simp add: columns_of_def split_def)

lemma columns_of_Cons:
  "columns_of (map (\<lambda>(k, c). (k, c @ cells d k)) b) ds = columns_of b (d # ds)"
  by (simp add: columns_of_def split_def)

lemma columns_of_keys [simp]: "map fst (columns_of b ds) = map fst b"
  by (simp add: columns_of_def split_def)

lemma columns_of_dom [simp]: "fst ` set (columns_of b ds) = fst ` set b"
  using columns_of_keys [of b ds] by (metis set_map)

lemma write_all_append:
  "write_all fails w (xs @ ys) =
     (case write_all fails w xs of
        Returned w' \<Rightarrow> write_all fails w' ys
      | Raised e w' \<Rightarrow> Raised e w')"
  by (induction xs arbitrary: w) (simp_all split: outcome.splits)

lemma buf_size_columns_of:
  assumes "b = (k0, c0) # rest" and "\<forall>d \<in> set ds. k0 \<in> fst ` set d"
  shows "buf_size (w\<lparr>buffer := columns_of b ds\<rparr>) = int (length c0 + length ds)"
proof -
  have "length (concat (map (\<lambda>d. cells d k0) ds)) = length ds"
    using assms(2) by (induction ds) (simp_all add: cells_present)
  then show ?thesis
    using assms(1) by (simp add: buf_size_def columns_of_def)
qed

lemma append_buffer_columns:
  assumes "distinct (map fst (buffer w))" and "distinct (map fst d)"
  shows "append_buffer w d = w\<lparr>buffer := columns_of (buffer w) [d]\<rparr>"
  using append_loop_cells [OF assms] by (simp add: append_buffer_def columns_of_def)

lemma columns_of_append:
  "columns_of (columns_of b xs) ys = columns_of b (xs @ ys)"
  by (simp add: columns_of_def split_def)

lemma write_all_below_capacity:
  assumes "buffer w = (k0, c0) # rest"
    and "distinct (map fst (buffer w))"
    and "\<forall>d \<in> set ds. distinct (map fst d) \<and> fst ` set (buffer w) \<subseteq> fst ` set d"
    and "int (length c0 + length ds) < buf_capacity w"
  shows "write_all fails w ds = Returned (w\<lparr>buffer := columns_of (buffer w) ds\<rparr>)"
  using assms
proof (induction ds arbitrary: w c0 rest)
  case Nil
  then show ?case by simp
next
  case (Cons d ds)
  let ?w1 = "w\<lparr>buffer := columns_of (buffer w) [d]\<rparr>"
  have dd: "distinct (map fst d)" and k0: "k0 \<in> fst ` set d"
    using Cons.prems(1,3) by auto
  have a: "append_buffer w d = ?w1"
    using Cons.prems(2) dd by (rule append_buffer_columns)
  have sz: "buf_size ?w1 = int (length c0 + 1)"
    using buf_size_columns_of [of "buffer w" k0 c0 rest "[d]" w] Cons.prems(1) k0 by simp
  have step: "write_data fails w d = Returned ?w1"
    using sz Cons.prems(4) by (simp add: write_data_def a)
  obtain c1 rest1 where b1: "buffer ?w1 = (k0, c1) # rest1" and c1: "length c1 = length c0 + 1"
    using Cons.prems(1) k0 by (simp add: columns_of_def cells_present)
  have "write_all fails ?w1 ds = Returned (?w1\<lparr>buffer := columns_of (buffer ?w1) ds\<rparr>)"
  proof (rule Cons.IH [OF b1])
    show "distinct (map fst (buffer ?w1))"
      using Cons.prems(2) by simp
    show "\<forall>d \<in> set ds. distinct (map fst d) \<and> fst ` set (buffer ?w1) \<subseteq> fst ` set d"
      using Cons.prems(3) by simp
    show "int (length c1 + length ds) < buf_capacity ?w1"
      using Cons.prems(4) c1 by simp
  qed
  then show ?case
    using step by (simp add: columns_of_append)
qed

lemma fresh_buffer_Cons:
  "ks \<noteq> [] \<Longrightarrow> \<exists>k0 rest. (fresh_buffer ks :: 'v columns) = (k0, []) # rest"
proof -
  assume "ks \<noteq> []"
  then obtain p ps where c: "(fresh_buffer ks :: 'v columns) = p # ps"
    using fresh_buffer_Nil [of ks] by (cases "fresh_buffer ks :: 'v columns") auto
  then have "snd p = []"
    using fresh_buffer_cols [of p ks] by simp
  then show ?thesis using c by (cases p) simp
qed

lemma populated_all:
  assumes "buffer w = fresh_buffer ks" and "list_all (fully_populated ks) ds"
  shows "\<forall>d \<in> set ds. distinct (map fst d) \<and> fst ` set (buffer w) \<subseteq> fst ` set d"
  using assms by (simp add: list_all_iff fully_populated_def fresh_buffer_dom)

lemma below_capacity_prefix:
  assumes "buffer w = fresh_buffer ks" and "ks \<noteq> []"
    and "list_all (fully_populated ks) ds"
    and "int (length ds) < buf_capacity w"
  shows "write_all fails w ds = Returned (w\<lparr>buffer := columns_of (fresh_buffer ks) ds\<rparr>) \<and>
         buf_size (w\<lparr>buffer := columns_of (fresh_buffer ks) ds\<rparr>) = int (length ds)"
proof -
  obtain k0 rest where b: "buffer w = (k0, []) # rest"
    using fresh_buffer_Cons [OF assms(2)] assms(1) by metis
  have dist: "distinct (map fst (buffer w))"
    using assms(1) by (simp add: fresh_buffer_distinct)
  have pop: "\<forall>d \<in> set ds. distinct (map fst d) \<and> fst ` set (buffer w) \<subseteq> fst ` set d"
    using assms(1,3) by (rule populated_all)
  have r: "write_all fails w ds = Returned (w\<lparr>buffer := columns_of (buffer w) ds\<rparr>)"
    using write_all_below_capacity [OF b dist pop] assms(4) by simp
  have "\<forall>d \<in> set ds. k0 \<in> fst ` set d"
    using pop b by auto
  then have "buf_size (w\<lparr>buffer := columns_of (buffer w) ds\<rparr>) = int (length ds)"
    using buf_size_columns_of [OF b, of ds w] by simp
  then show ?thesis
    using r assms(1) by simp
qed

section \<open>The claims\<close>

text \<open>
  C6: \<open>flush()\<close> on a buffer whose \<open>current_size()\<close> is 0 is a no-op: it returns, the
  handler has received no call and the writer is in the state it was in.
\<close>

theorem flush_empty_noop:
  "buf_size w = 0 \<Longrightarrow> flush fails w = Returned w"
  by (simp add: flush_def)

theorem flush_empty_noop_witness:
  "buf_size (new_writer [''t'', ''v''] 3) = 0 \<and>
   flush sink_down (new_writer [''t'', ''v''] 3) = Returned (new_writer [''t'', ''v''] 3)"
proof -
  have h: "buf_size (new_writer [''t'', ''v''] 3) = 0"
    by (simp add: buf_size_def new_writer_def fresh_buffer_t_v)
  show ?thesis using h flush_empty_noop [OF h, of sink_down] by simp
qed

text \<open>
  C9: constructing the base class raises \<open>NotImplementedError\<close>, whatever the
  arguments: \<open>__init__\<close> calls \<open>_reset_buffer\<close>, which raises there, so the caller
  gets no instance.
\<close>

theorem base_class_init_raises:
  "DataWriter_init BaseDataWriter h t capacity =
   Inl (NotImplementedError ''Buffer resetter not implemented.'')"
  by (simp add: DataWriter_init_def reset_buffer_def)

text \<open>
  C4: when the handler's \<open>write\<close> raises during \<open>flush\<close> on a non-empty buffer, the
  exception leaves \<open>flush\<close> with the buffer as it was before the call: the reset is
  skipped, and \<open>current_size()\<close> is unchanged.
\<close>

theorem failed_flush_retains_buffer:
  assumes "0 < buf_size w"
    and "fails (received (handler w)) (buffer w) (table w) = Some e"
  shows "flush fails w = Raised e (state_of (flush fails w)) \<and>
         buffer (state_of (flush fails w)) = buffer w \<and>
         buf_size (state_of (flush fails w)) = buf_size w"
  using assms flush_raises [of w fails e] by simp

theorem failed_flush_retains_buffer_witness:
  "0 < buf_size ((new_writer [''t'', ''v''] 3)\<lparr>buffer := [(''t'', [1, 2]), (''v'', [10, 20])]\<rparr>) \<and>
   flush sink_down ((new_writer [''t'', ''v''] 3)\<lparr>buffer := [(''t'', [1, 2]), (''v'', [10, 20])]\<rparr>) =
   Raised (HandlerError ''down'')
     \<lparr>handler = \<lparr>received = [([(''t'', [1, 2]), (''v'', [10, 20])], ''readings'')]\<rparr>,
      buf_capacity = 3, table = ''readings'',
      buffer = [(''t'', [1, 2]), (''v'', [10, 20])], cls = Subclass [''t'', ''v'']\<rparr>"
proof -
  let ?w = "(new_writer [''t'', ''v''] 3)\<lparr>buffer := [(''t'', [1, 2]), (''v'', [10, 20])]\<rparr>"
  have h: "0 < buf_size ?w"
    by (simp add: buf_size_def)
  have f: "sink_down (received (handler ?w)) (buffer ?w) (table ?w) = Some (HandlerError ''down'')"
    by (simp add: sink_down_def)
  show ?thesis
    using h f failed_flush_retains_buffer [of ?w sink_down "HandlerError ''down''"]
    by (simp add: flush_def Handler_write_def new_writer_def sink_down_def)
qed

text \<open>
  C3, as the code has it: when the handler's \<open>write\<close> raises during a flush, called
  directly or from \<open>write\<close>, the same exception reaches the caller and the buffer
  keeps its contents (in \<open>write\<close>, with the record just appended); nothing is
  discarded, so a later \<open>write\<close> appends to the retained buffer.
\<close>

theorem sink_failure_propagates_buffer_kept:
  "(0 < buf_size w \<and> fails (received (handler w)) (buffer w) (table w) = Some e \<longrightarrow>
      flush fails w = Raised e (w\<lparr>handler := called (handler w) (buffer w) (table w)\<rparr>)) \<and>
   (buf_capacity w \<le> buf_size (append_buffer w d) \<and> 0 < buf_size (append_buffer w d) \<and>
    fails (received (handler w)) (buffer (append_buffer w d)) (table w) = Some e \<longrightarrow>
      write_data fails w d =
        Raised e (w\<lparr>handler := called (handler w) (buffer (append_buffer w d)) (table w),
                     buffer := buffer (append_buffer w d)\<rparr>))"
proof (intro conjI impI)
  assume "0 < buf_size w \<and> fails (received (handler w)) (buffer w) (table w) = Some e"
  then show "flush fails w = Raised e (w\<lparr>handler := called (handler w) (buffer w) (table w)\<rparr>)"
    by (simp add: flush_raises)
next
  let ?w1 = "append_buffer w d"
  assume a: "buf_capacity w \<le> buf_size ?w1 \<and> 0 < buf_size ?w1 \<and>
    fails (received (handler w)) (buffer ?w1) (table w) = Some e"
  have f: "fails (received (handler ?w1)) (buffer ?w1) (table ?w1) = Some e"
    using a by (simp add: append_buffer_def)
  have "write_data fails w d = flush fails ?w1"
    using a by (simp add: write_data_def append_buffer_def Let_def)
  also have "\<dots> = Raised e (?w1\<lparr>handler := called (handler ?w1) (buffer ?w1) (table ?w1)\<rparr>)"
    using a f by (simp add: flush_raises)
  finally show "write_data fails w d =
        Raised e (w\<lparr>handler := called (handler w) (buffer ?w1) (table w),
                     buffer := buffer ?w1\<rparr>)"
    by (simp add: append_buffer_def)
qed

theorem sink_failure_propagates_buffer_kept_witness:
  "0 < buf_size ((new_writer [''t'', ''v''] 3)\<lparr>buffer := [(''t'', [1, 2]), (''v'', [10, 20])]\<rparr>) \<and>
   flush sink_down ((new_writer [''t'', ''v''] 3)\<lparr>buffer := [(''t'', [1, 2]), (''v'', [10, 20])]\<rparr>) =
     Raised (HandlerError ''down'')
       \<lparr>handler = \<lparr>received = [([(''t'', [1, 2]), (''v'', [10, 20])], ''readings'')]\<rparr>,
        buf_capacity = 3, table = ''readings'',
        buffer = [(''t'', [1, 2]), (''v'', [10, 20])], cls = Subclass [''t'', ''v'']\<rparr> \<and>
   write_data sink_down
     ((new_writer [''t'', ''v''] 3)\<lparr>buffer := [(''t'', [1, 2]), (''v'', [10, 20])]\<rparr>) (reading 3 30) =
     Raised (HandlerError ''down'')
       \<lparr>handler = \<lparr>received = [([(''t'', [1, 2, 3]), (''v'', [10, 20, 30])], ''readings'')]\<rparr>,
        buf_capacity = 3, table = ''readings'',
        buffer = [(''t'', [1, 2, 3]), (''v'', [10, 20, 30])], cls = Subclass [''t'', ''v'']\<rparr>"
proof -
  let ?w = "(new_writer [''t'', ''v''] 3)\<lparr>buffer := [(''t'', [1, 2]), (''v'', [10, 20])]\<rparr>"
  have b: "buffer (append_buffer ?w (reading 3 30)) = [(''t'', [1, 2, 3]), (''v'', [10, 20, 30])]"
    by (simp add: append_buffer_def reading_def)
  have h: "0 < buf_size ?w"
    by (simp add: buf_size_def)
  have h1: "buf_capacity ?w \<le> buf_size (append_buffer ?w (reading 3 30)) \<and>
            0 < buf_size (append_buffer ?w (reading 3 30))"
    by (simp add: buf_size_def append_buffer_def reading_def new_writer_def)
  show ?thesis
    using h h1 b
      sink_failure_propagates_buffer_kept
        [of ?w sink_down "HandlerError ''down''" "reading 3 30"]
    by (simp add: sink_down_def called_def new_writer_def append_buffer_def reading_def
        buf_size_def)
qed

text \<open>
  The example of the specification refutes C3 as it is written: with capacity 3 and a
  handler that raises, the third \<open>write\<close> raises the handler's exception and leaves
  all three records in the buffer, whose size is 3 and not 0.
\<close>

theorem sink_failure_discards_counterexample:
  "write_all sink_down (new_writer [''t'', ''v''] 3) [reading 1 10, reading 2 20, reading 3 30] =
   Raised (HandlerError ''down'')
     \<lparr>handler = \<lparr>received = [([(''t'', [1, 2, 3]), (''v'', [10, 20, 30])], ''readings'')]\<rparr>,
      buf_capacity = 3, table = ''readings'',
      buffer = [(''t'', [1, 2, 3]), (''v'', [10, 20, 30])], cls = Subclass [''t'', ''v'']\<rparr> \<and>
   buf_size (state_of (write_all sink_down (new_writer [''t'', ''v''] 3)
                         [reading 1 10, reading 2 20, reading 3 30])) = 3"
  by (simp add: new_writer_def reading_def sink_down_def fresh_buffer_t_v write_data_def
      append_buffer_def buf_size_def flush_def Handler_write_def)

text \<open>
  C8, as the code has it: \<open>__init__\<close> does not look at the capacity. Constructing a
  subclass with a capacity that is 0 or negative raises nothing and gives a writer that
  holds this capacity and an empty buffer.
\<close>

theorem init_accepts_any_capacity:
  "capacity \<le> 0 \<Longrightarrow>
   DataWriter_init (Subclass ks) h t capacity =
   Inr \<lparr>handler = h, buf_capacity = capacity, table = t,
        buffer = fresh_buffer ks, cls = Subclass ks\<rparr>"
  by (simp add: DataWriter_init_def reset_buffer_def)

theorem init_accepts_any_capacity_witness:
  "(-5 :: int) \<le> 0 \<and>
   DataWriter_init (Subclass [''t'', ''v'']) \<lparr>received = []\<rparr> ''readings'' (-5) =
   Inr (new_writer [''t'', ''v''] (-5))"
  using init_accepts_any_capacity [of "-5" "[''t'', ''v'']" "\<lparr>received = []\<rparr>" "''readings''"]
  by (simp add: new_writer_def)

text \<open>
  C8 as it is written fails: with capacity 0 the constructor of a subclass with the
  fields \<open>t\<close> and \<open>v\<close> returns an instance.
\<close>

theorem init_rejects_capacity_counterexample:
  "DataWriter_init (Subclass [''t'', ''v'']) \<lparr>received = []\<rparr> ''readings'' 0 =
   Inr \<lparr>handler = \<lparr>received = []\<rparr>, buf_capacity = 0, table = ''readings'',
        buffer = [(''t'', [] :: int list), (''v'', [])], cls = Subclass [''t'', ''v'']\<rparr>"
  by (simp add: DataWriter_init_def reset_buffer_def fresh_buffer_t_v)

text \<open>
  C5: a key of the record that the buffer does not have is dropped. \<open>_append_buffer\<close>
  and \<open>write\<close> do exactly what they do on the record without that key (so the key
  causes no exception, its value goes nowhere, and the other fields are appended as
  usual), and the keys of the buffer are unchanged. Unless the class resets the buffer
  to that key, the buffer does not have it after \<open>write\<close> either, however the call
  ends.
\<close>

theorem unrecognized_key_dropped:
  assumes "key \<notin> set (map fst (buffer w))"
  shows "append_buffer w (xs @ (key, v) # ys) = append_buffer w (xs @ ys) \<and>
         write_data fails w (xs @ (key, v) # ys) = write_data fails w (xs @ ys) \<and>
         map fst (buffer (append_buffer w (xs @ (key, v) # ys))) = map fst (buffer w) \<and>
         (key \<notin> set (class_keys (cls w)) \<longrightarrow>
            key \<notin> set (map fst (buffer (state_of (write_data fails w (xs @ (key, v) # ys))))))"
proof -
  have a: "append_buffer w (xs @ (key, v) # ys) = append_buffer w (xs @ ys)"
    using assms by (simp add: append_buffer_def append_loop_skip)
  have b: "write_data fails w (xs @ (key, v) # ys) = write_data fails w (xs @ ys)"
    by (simp add: write_data_def a)
  have c: "map fst (buffer (append_buffer w (xs @ (key, v) # ys))) = map fst (buffer w)"
    by (simp add: append_buffer_def append_loop_keys)
  have d: "key \<notin> set (class_keys (cls w)) \<longrightarrow>
            key \<notin> set (map fst (buffer (state_of (write_data fails w (xs @ (key, v) # ys)))))"
    using assms write_data_keys [of fails w "xs @ (key, v) # ys"] by metis
  show ?thesis using a b c d by blast
qed

theorem unrecognized_key_dropped_witness:
  "''x'' \<notin> set (map fst (buffer (new_writer [''t'', ''v''] 3))) \<and>
   write_data sink_ok (new_writer [''t'', ''v''] 3) [(''t'', 1), (''x'', 99), (''v'', 10)] =
     write_data sink_ok (new_writer [''t'', ''v''] 3) [(''t'', 1), (''v'', 10)] \<and>
   write_data sink_ok (new_writer [''t'', ''v''] 3) [(''t'', 1), (''x'', 99), (''v'', 10)] =
     Returned ((new_writer [''t'', ''v''] 3)\<lparr>buffer := [(''t'', [1]), (''v'', [10])]\<rparr>)"
proof -
  have h: "''x'' \<notin> set (map fst (buffer (new_writer [''t'', ''v''] 3)))"
    by (simp add: new_writer_def fresh_buffer_t_v)
  have r: "write_data sink_ok (new_writer [''t'', ''v''] 3) [(''t'', 1), (''v'', 10)] =
     Returned ((new_writer [''t'', ''v''] 3)\<lparr>buffer := [(''t'', [1]), (''v'', [10])]\<rparr>)"
    by (simp add: new_writer_def fresh_buffer_t_v write_data_def append_buffer_def buf_size_def)
  show ?thesis
    using h r unrecognized_key_dropped
      [OF h, of "[(''t'', 1)]" 99 "[(''v'', 10)]" sink_ok]
    by simp
qed

text \<open>
  C10, as the code has it: with a capacity of 0 or less, a \<open>write\<close> whose record has
  the first key of the buffer (the one \<open>_buf_size\<close> reads) calls the handler at once,
  with the buffer that holds the record. When the handler returns, the buffer is reset
  and its size is 0; when it raises, the exception reaches the caller and the buffer
  is kept.
\<close>

theorem nonpositive_capacity_flushes:
  assumes "buf_capacity w \<le> 0" and "cls w = Subclass ks"
    and "buffer w = (k0, c0) # rest" and "k0 \<in> set (map fst d)"
  shows "write_data fails w d =
           (case fails (received (handler w)) (buffer (append_buffer w d)) (table w) of
              None \<Rightarrow>
                Returned (w\<lparr>handler := called (handler w) (buffer (append_buffer w d)) (table w),
                            buffer := fresh_buffer ks\<rparr>)
            | Some e \<Rightarrow>
                Raised e (w\<lparr>handler := called (handler w) (buffer (append_buffer w d)) (table w),
                            buffer := buffer (append_buffer w d)\<rparr>)) \<and>
         buf_size (w\<lparr>buffer := fresh_buffer ks\<rparr>) = 0"
proof -
  let ?w1 = "append_buffer w d"
  have pos: "0 < buf_size ?w1"
    using assms(3,4) by (rule buf_size_first_key)
  have "write_data fails w d = flush fails ?w1"
    using pos assms(1) by (simp add: write_data_def append_buffer_def Let_def)
  then show ?thesis
    using pos assms(2)
    by (simp add: flush_def Handler_write_def called_def reset_buffer_def append_buffer_def
        split: option.splits)
qed

theorem nonpositive_capacity_flushes_witness:
  "buf_capacity (new_writer [''t'', ''v''] 0) \<le> 0 \<and>
   cls (new_writer [''t'', ''v''] 0) = Subclass [''t'', ''v''] \<and>
   buffer (new_writer [''t'', ''v''] 0) = (''t'', []) # [(''v'', [])] \<and>
   ''t'' \<in> set (map fst [(''t'', 1 :: int)]) \<and>
   write_data sink_ok (new_writer [''t'', ''v''] 0) [(''t'', 1)] =
     Returned \<lparr>handler = \<lparr>received = [([(''t'', [1]), (''v'', [])], ''readings'')]\<rparr>,
               buf_capacity = 0, table = ''readings'',
               buffer = [(''t'', []), (''v'', [])], cls = Subclass [''t'', ''v'']\<rparr>"
proof -
  let ?w = "new_writer [''t'', ''v''] 0"
  have h1: "buf_capacity ?w \<le> 0" by (simp add: new_writer_def)
  have h2: "cls ?w = Subclass [''t'', ''v'']" by (simp add: new_writer_def)
  have h3: "buffer ?w = (''t'', []) # [(''v'', [])]" by (simp add: new_writer_def fresh_buffer_t_v)
  have h4: "''t'' \<in> set (map fst [(''t'', 1 :: int)])" by simp
  show ?thesis
    using h1 h2 h3 h4 nonpositive_capacity_flushes [OF h1 h2 h3 h4, of sink_ok]
    by (simp add: sink_ok_def called_def append_buffer_def new_writer_def fresh_buffer_t_v)
qed

text \<open>
  C10 as it is written fails for a record that has a recognized field but not the first
  one. With capacity 0 and the fields \<open>t\<close> and \<open>v\<close>, two records that hold only \<open>v\<close>
  leave \<open>_buf_size\<close> at 0: \<open>flush\<close> does nothing, the handler receives no call and
  the column \<open>v\<close> holds the values of both records.
\<close>

theorem nonpositive_capacity_counterexample:
  "write_all sink_ok (new_writer [''t'', ''v''] 0) [[(''v'', 10)], [(''v'', 20)]] =
   Returned \<lparr>handler = \<lparr>received = []\<rparr>, buf_capacity = 0, table = ''readings'',
             buffer = [(''t'', []), (''v'', [10, 20])], cls = Subclass [''t'', ''v'']\<rparr>"
  by (simp add: new_writer_def fresh_buffer_t_v write_data_def append_buffer_def buf_size_def
      flush_def)

text \<open>
  C7: a writer of a subclass, from its construction on, has columns of equal length
  after every operation (\<open>write\<close>, \<open>_append_buffer\<close>, \<open>flush\<close>, \<open>_reset_buffer\<close>),
  in any order and however each call ends, as long as every record passed in is fully
  populated.
\<close>

theorem columns_equal_length:
  assumes "DataWriter_init (Subclass ks) h t capacity = Inr w"
    and "list_all (populated_op ks) xs"
  shows "equal_lengths (buffer (run_ops fails w xs)) \<and>
         (\<forall>p \<in> set (buffer (run_ops fails w xs)). \<forall>q \<in> set (buffer (run_ops fails w xs)).
            length (snd p) = length (snd q))"
proof -
  have "well_shaped ks (run_ops fails w xs)"
    using well_shaped_run_ops [OF well_shaped_init [OF assms(1)] assms(2)] .
  then have "equal_lengths (buffer (run_ops fails w xs))"
    by (simp add: well_shaped_def)
  then show ?thesis
    using equal_lengths_pairwise by blast
qed

theorem columns_equal_length_witness:
  "DataWriter_init (Subclass [''t'', ''v'']) \<lparr>received = []\<rparr> ''readings'' 3 =
     Inr (new_writer [''t'', ''v''] 3) \<and>
   list_all (populated_op [''t'', ''v'']) [Write (reading 1 10), Append (reading 2 20)] \<and>
   buffer (run_ops sink_ok (new_writer [''t'', ''v''] 3)
             [Write (reading 1 10), Append (reading 2 20)]) =
     [(''t'', [1, 2]), (''v'', [10, 20])] \<and>
   equal_lengths [(''t'', [1, 2 :: int]), (''v'', [10, 20])]"
proof -
  have h1: "DataWriter_init (Subclass [''t'', ''v'']) \<lparr>received = []\<rparr> ''readings'' 3 =
     Inr (new_writer [''t'', ''v''] 3)"
    by (simp add: DataWriter_init_def reset_buffer_def new_writer_def)
  have h2: "list_all (populated_op [''t'', ''v'']) [Write (reading 1 10), Append (reading 2 20)]"
    by (simp add: fully_populated_def reading_def)
  have b: "buffer (run_ops sink_ok (new_writer [''t'', ''v''] 3)
             [Write (reading 1 10), Append (reading 2 20)]) =
     [(''t'', [1, 2]), (''v'', [10, 20])]"
    by (simp add: new_writer_def fresh_buffer_t_v reading_def write_data_def append_buffer_def
        buf_size_def)
  show ?thesis
    using h1 h2 b columns_equal_length [OF h1 h2, of sink_ok]
    by simp
qed

text \<open>
  C2, as the code has it: for a writer with at least one key, \<open>N\<close> calls of \<open>write\<close>
  with fully populated records, from the empty buffer and with \<open>N\<close> below the
  capacity, all return; the handler has received no call and \<open>current_size()\<close> is
  \<open>N\<close>. The buffer holds the values of the records, column by column.
\<close>

theorem below_capacity_no_flush:
  assumes "buffer w = fresh_buffer ks" and "ks \<noteq> []"
    and "list_all (fully_populated ks) ds"
    and "int (length ds) < buf_capacity w"
  shows "write_all fails w ds = Returned (w\<lparr>buffer := columns_of (fresh_buffer ks) ds\<rparr>) \<and>
         handler (state_of (write_all fails w ds)) = handler w \<and>
         buf_size (state_of (write_all fails w ds)) = int (length ds)"
  using below_capacity_prefix [OF assms, of fails] by simp

theorem below_capacity_no_flush_witness:
  "buffer (new_writer [''t'', ''v''] 3) = fresh_buffer [''t'', ''v''] \<and>
   [''t'', ''v''] \<noteq> [] \<and>
   list_all (fully_populated [''t'', ''v'']) [reading 1 10, reading 2 20] \<and>
   int (length [reading 1 10, reading 2 20]) < buf_capacity (new_writer [''t'', ''v''] 3) \<and>
   write_all sink_down (new_writer [''t'', ''v''] 3) [reading 1 10, reading 2 20] =
     Returned \<lparr>handler = \<lparr>received = []\<rparr>, buf_capacity = 3, table = ''readings'',
               buffer = [(''t'', [1, 2]), (''v'', [10, 20])], cls = Subclass [''t'', ''v'']\<rparr> \<and>
   buf_size (state_of (write_all sink_down (new_writer [''t'', ''v''] 3)
                         [reading 1 10, reading 2 20])) = 2"
proof -
  let ?w = "new_writer [''t'', ''v''] 3"
  have h1: "buffer ?w = fresh_buffer [''t'', ''v'']" by (simp add: new_writer_def)
  have h2: "[''t'', ''v''] \<noteq> []" by simp
  have h3: "list_all (fully_populated [''t'', ''v'']) [reading 1 10, reading 2 20]"
    by (simp add: fully_populated_def reading_def)
  have h4: "int (length [reading 1 10, reading 2 20]) < buf_capacity ?w"
    by (simp add: new_writer_def)
  show ?thesis
    using h1 h2 h3 h4 below_capacity_no_flush [OF h1 h2 h3 h4, of sink_down]
    by (simp add: new_writer_def buf_size_def fresh_buffer_t_v columns_of_def cells_def
        reading_def)
qed

text \<open>
  C2 as it is written fails for a writer without keys: \<open>_buf_size\<close> answers 0 for a
  dictionary without keys, so after one \<open>write\<close> under a capacity of 2 the size is 0
  and not 1.
\<close>

theorem below_capacity_size_counterexample:
  "DataWriter_init (Subclass []) \<lparr>received = []\<rparr> ''readings'' 2 = Inr (new_writer [] 2) \<and>
   fully_populated [] (reading 1 10) \<and>
   write_all sink_ok (new_writer [] 2) [reading 1 10] =
     Returned \<lparr>handler = \<lparr>received = []\<rparr>, buf_capacity = 2, table = ''readings'',
               buffer = [], cls = Subclass []\<rparr> \<and>
   buf_size (state_of (write_all sink_ok (new_writer [] 2) [reading 1 10])) = 0"
  by (simp add: DataWriter_init_def reset_buffer_def new_writer_def fresh_buffer_def
      fully_populated_def reading_def write_data_def append_buffer_def buf_size_def)

text \<open>
  C1, as the code has it: for a writer with at least one key and a positive capacity,
  from the empty buffer, as many calls of \<open>write\<close> with fully populated records as
  the capacity says make one call of the handler. The calls before the last return
  and leave the handler as it was. The last one calls the handler once, with all the
  records accumulated and the table; when the handler returns, \<open>write\<close> returns with
  the buffer reset, of size 0, and when it raises, the exception reaches the caller.
\<close>

theorem exactly_capacity_one_flush:
  assumes "cls w = Subclass ks" and "buffer w = fresh_buffer ks" and "ks \<noteq> []"
    and "list_all (fully_populated ks) ds"
    and "0 < buf_capacity w" and "int (length ds) = buf_capacity w"
  shows "write_all fails w (butlast ds) =
           Returned (w\<lparr>buffer := columns_of (fresh_buffer ks) (butlast ds)\<rparr>) \<and>
         write_all fails w ds =
           (case fails (received (handler w)) (columns_of (fresh_buffer ks) ds) (table w) of
              None \<Rightarrow>
                Returned (w\<lparr>handler := called (handler w) (columns_of (fresh_buffer ks) ds) (table w),
                            buffer := fresh_buffer ks\<rparr>)
            | Some e \<Rightarrow>
                Raised e (w\<lparr>handler := called (handler w) (columns_of (fresh_buffer ks) ds) (table w),
                            buffer := columns_of (fresh_buffer ks) ds\<rparr>)) \<and>
         buf_size (w\<lparr>buffer := fresh_buffer ks\<rparr>) = 0"
proof -
  let ?fb = "fresh_buffer ks :: 'a columns"
  have ne: "ds \<noteq> []"
    using assms(5,6) by auto
  then have split: "ds = butlast ds @ [last ds]"
    by simp
  let ?xs = "butlast ds" and ?d = "last ds"
  have popx: "list_all (fully_populated ks) ?xs"
    using assms(4) by (auto simp: list_all_iff dest: in_set_butlastD)
  have popd: "fully_populated ks ?d"
    using assms(4) ne by (simp add: list_all_iff)
  have "length ?xs < length ds"
    using ne by simp
  then have lenx: "int (length ?xs) < buf_capacity w"
    using assms(6) by linarith
  let ?w1 = "w\<lparr>buffer := columns_of ?fb ?xs\<rparr>"
  have first: "write_all fails w ?xs = Returned ?w1"
    using below_capacity_prefix [OF assms(2,3) popx lenx] by simp
  let ?full = "columns_of ?fb ds"
  have "append_buffer ?w1 ?d = ?w1\<lparr>buffer := columns_of (buffer ?w1) [?d]\<rparr>"
    using popd by (intro append_buffer_columns) (simp_all add: fresh_buffer_distinct fully_populated_def)
  then have a: "append_buffer ?w1 ?d = w\<lparr>buffer := ?full\<rparr>"
    using split by (simp add: columns_of_append)
  obtain k0 rest where b: "?fb = (k0, []) # rest"
    using fresh_buffer_Cons [OF assms(3)] by metis
  have "\<forall>d \<in> set ds. k0 \<in> fst ` set d"
    using populated_all [OF assms(2,4)] assms(2) b by auto
  then have sz: "buf_size (w\<lparr>buffer := ?full\<rparr>) = int (length ds)"
    using buf_size_columns_of [OF b, of ds w] by simp
  have last: "write_data fails ?w1 ?d = flush fails (w\<lparr>buffer := ?full\<rparr>)"
    using sz assms(6) by (simp add: write_data_def a)
  have fl: "flush fails (w\<lparr>buffer := ?full\<rparr>) =
           (case fails (received (handler w)) ?full (table w) of
              None \<Rightarrow> Returned (w\<lparr>handler := called (handler w) ?full (table w), buffer := ?fb\<rparr>)
            | Some e \<Rightarrow> Raised e (w\<lparr>handler := called (handler w) ?full (table w), buffer := ?full\<rparr>))"
    using sz assms(1,5,6)
    by (simp add: flush_def Handler_write_def called_def reset_buffer_def split: option.splits)
  have "write_all fails w ds = write_data fails ?w1 ?d"
    using write_all_append [of fails w ?xs "[?d]"] split first
    by (simp split: outcome.splits)
  then show ?thesis
    using first last fl by simp
qed

theorem exactly_capacity_one_flush_witness:
  "cls (new_writer [''t'', ''v''] 3) = Subclass [''t'', ''v''] \<and>
   buffer (new_writer [''t'', ''v''] 3) = fresh_buffer [''t'', ''v''] \<and>
   [''t'', ''v''] \<noteq> [] \<and>
   list_all (fully_populated [''t'', ''v'']) [reading 1 10, reading 2 20, reading 3 30] \<and>
   0 < buf_capacity (new_writer [''t'', ''v''] 3) \<and>
   int (length [reading 1 10, reading 2 20, reading 3 30]) =
     buf_capacity (new_writer [''t'', ''v''] 3) \<and>
   write_all sink_ok (new_writer [''t'', ''v''] 3) [reading 1 10, reading 2 20, reading 3 30] =
     Returned \<lparr>handler = \<lparr>received = [([(''t'', [1, 2, 3]), (''v'', [10, 20, 30])], ''readings'')]\<rparr>,
               buf_capacity = 3, table = ''readings'',
               buffer = [(''t'', []), (''v'', [])], cls = Subclass [''t'', ''v'']\<rparr>"
proof -
  let ?w = "new_writer [''t'', ''v''] 3"
  let ?ds = "[reading 1 10, reading 2 20, reading 3 30]"
  have h1: "cls ?w = Subclass [''t'', ''v'']" by (simp add: new_writer_def)
  have h2: "buffer ?w = fresh_buffer [''t'', ''v'']" by (simp add: new_writer_def)
  have h3: "[''t'', ''v''] \<noteq> []" by simp
  have h4: "list_all (fully_populated [''t'', ''v'']) ?ds"
    by (simp add: fully_populated_def reading_def)
  have h5: "0 < buf_capacity ?w" by (simp add: new_writer_def)
  have h6: "int (length ?ds) = buf_capacity ?w" by (simp add: new_writer_def)
  show ?thesis
    using h1 h2 h3 h4 h5 h6 exactly_capacity_one_flush [OF h1 h2 h3 h4 h5 h6, of sink_ok]
    by (simp add: new_writer_def sink_ok_def called_def fresh_buffer_t_v columns_of_def
        cells_def reading_def)
qed

text \<open>
  C1 as it is written fails for a writer without keys: its size stays 0, below the
  capacity 1, so the \<open>write\<close> returns and the handler has received no call.
\<close>

theorem exactly_capacity_no_flush_counterexample:
  "DataWriter_init (Subclass []) \<lparr>received = []\<rparr> ''readings'' 1 = Inr (new_writer [] 1) \<and>
   fully_populated [] (reading 1 10) \<and>
   write_all sink_ok (new_writer [] 1) [reading 1 10] =
     Returned \<lparr>handler = \<lparr>received = []\<rparr>, buf_capacity = 1, table = ''readings'',
               buffer = [], cls = Subclass []\<rparr>"
  by (simp add: DataWriter_init_def reset_buffer_def new_writer_def fresh_buffer_def
      fully_populated_def reading_def write_data_def append_buffer_def buf_size_def)

end
